theory Spec2Isabelle
  imports Main "HOL-Library.Word" "HOL-Library.Sublist"
begin

unbundle bit_operations_syntax

section \<open>Data model\<close>

text \<open>
  Go strings are byte sequences; a HOL \<open>string\<close> is a list of bytes too.
  \<open>NodeID\<close> is a Go string type.
\<close>

type_synonym u32 = "32 word"
type_synonym NodeID = string

record NodeInfo =
  ID :: NodeID
  Host :: string

text \<open>
  The ring of package hashring (the mutex is left out: every operation below is one
  critical section). \<open>vNodes\<close> is a Go \<open>int\<close>; \<open>hashMap\<close> is a Go map, whose
  \<open>len\<close> is the number of keys, \<open>card (dom m)\<close>.
\<close>

record Ring =
  vNodes :: int
  hashes :: "u32 list"
  hashMap :: "u32 \<rightharpoonup> NodeInfo"

section \<open>Hashing\<close>

text \<open>
  \<open>hashFn\<close> calls Go's hash/fnv: \<open>New32a\<close> starts from the offset basis, \<open>Write\<close>
  folds each byte in with \<open>hash ^= c; hash *= prime32\<close> on a uint32, \<open>Sum32\<close> reads
  the state.
\<close>

definition offset32 :: u32 where
  "offset32 = 2166136261"

definition prime32 :: u32 where
  "prime32 = 16777619"

definition New32a :: u32 where
  "New32a = offset32"

definition Write32a :: "u32 \<Rightarrow> string \<Rightarrow> u32" where
  "Write32a s data = foldl (\<lambda>hash c. (hash XOR of_char c) * prime32) s data"

definition Sum32 :: "u32 \<Rightarrow> u32" where
  "Sum32 s = s"

definition hashFn :: "string \<Rightarrow> u32" where
  "hashFn key = Sum32 (Write32a New32a key)"

text \<open>
  The words of the specification: 32-bit FNV-1a over the bytes, written on natural
  numbers with the reduction modulo \<open>2 ^ 32\<close> spelled out.
\<close>

definition fnv1a32_spec :: "nat list \<Rightarrow> nat" where
  "fnv1a32_spec bytes =
     foldl (\<lambda>h b. ((h XOR b) * 16777619) mod 2 ^ 32) 2166136261 bytes"

text \<open>\<open>fmt.Sprintf("%d", i)\<close>: the decimal digits of a Go int.\<close>

definition digit :: "nat \<Rightarrow> char" where
  "digit d = ''0123456789'' ! d"

fun digits :: "nat \<Rightarrow> string" where
  "digits n = (if n < 10 then [digit n] else digits (n div 10) @ [digit (n mod 10)])"

definition Sprintf_d :: "int \<Rightarrow> string" where
  "Sprintf_d i = (if i < 0 then ''-'' @ digits (nat (- i)) else digits (nat i))"

text \<open>\<open>fmt.Sprintf("%s#%d", string(n.ID), i)\<close>\<close>

definition vKey :: "NodeID \<Rightarrow> int \<Rightarrow> string" where
  "vKey n i = n @ ''#'' @ Sprintf_d i"

section \<open>Ring construction\<close>

definition sortHashes :: "Ring \<Rightarrow> Ring" where
  "sortHashes r = r\<lparr>hashes := sort (hashes r)\<rparr>"

text \<open>One iteration of the loop of \<open>addNodeNoLock\<close>, for slot \<open>i\<close>.\<close>

definition addSlot :: "NodeInfo \<Rightarrow> Ring \<Rightarrow> nat \<Rightarrow> Ring" where
  "addSlot n r i =
     (let h = hashFn (vKey (ID n) (int i))
      in r\<lparr>hashes := hashes r @ [h], hashMap := (hashMap r)(h \<mapsto> n)\<rparr>)"

text \<open>\<open>for i := 0; i < r.vNodes; i++\<close>: no iteration when \<open>vNodes \<le> 0\<close>.\<close>

definition addNodeNoLock :: "Ring \<Rightarrow> NodeInfo \<Rightarrow> Ring" where
  "addNodeNoLock r n = foldl (addSlot n) r [0..<nat (vNodes r)]"

definition NewRing :: "NodeInfo list \<Rightarrow> int \<Rightarrow> Ring" where
  "NewRing nodes v =
     sortHashes (foldl addNodeNoLock \<lparr>vNodes = v, hashes = [], hashMap = Map.empty\<rparr> nodes)"

definition AddNode :: "Ring \<Rightarrow> NodeInfo \<Rightarrow> Ring" where
  "AddNode r n = sortHashes (addNodeNoLock r n)"

section \<open>Replica selection\<close>

text \<open>
  Go's \<open>sort.Search(n, f)\<close>: binary search for the least index in \<open>[0, n)\<close> where
  \<open>f\<close> holds, \<open>n\<close> when there is none.
\<close>

function Search_loop :: "(nat \<Rightarrow> bool) \<Rightarrow> nat \<Rightarrow> nat \<Rightarrow> nat" where
  "Search_loop f i j =
     (if i < j then
        (let h = (i + j) div 2
         in if \<not> f h then Search_loop f (h + 1) j else Search_loop f i h)
      else i)"
  by pat_completeness auto
termination
  by (relation "measure (\<lambda>(f, i, j). j - i)") auto

definition Search :: "nat \<Rightarrow> (nat \<Rightarrow> bool) \<Rightarrow> nat" where
  "Search n f = Search_loop f 0 n"

text \<open>\<open>r.hashMap[hash]\<close>: a missing key reads as the zero \<open>NodeInfo\<close>.\<close>

definition lookupNode :: "(u32 \<rightharpoonup> NodeInfo) \<Rightarrow> u32 \<Rightarrow> NodeInfo" where
  "lookupNode m h = (case m h of None \<Rightarrow> \<lparr>ID = [], Host = []\<rparr> | Some n \<Rightarrow> n)"

text \<open>
  The loop \<open>for len(replicas) < rFactor\<close> of \<open>GetReplicasForKey\<close>. It has no bound
  of its own, so it is a partial function: \<open>None\<close> is a walk that never returns.
  \<open>seen\<close> is the Go map used as a set of ids; the break compares \<open>len(seen)\<close> with
  \<open>len(r.hashMap)\<close>.
\<close>

partial_function (option) walk ::
  "Ring \<Rightarrow> int \<Rightarrow> nat \<Rightarrow> NodeInfo list \<Rightarrow> NodeID set \<Rightarrow> NodeInfo list option" where
  "walk r rFactor idx replicas seen =
     (if int (length replicas) < rFactor then
        (let hash = hashes r ! idx;
             node = lookupNode (hashMap r) hash;
             seen' = (if ID node \<in> seen then seen else insert (ID node) seen);
             replicas' = (if ID node \<in> seen then replicas else replicas @ [node]);
             idx' = (idx + 1) mod length (hashes r)
         in if card seen' = card (dom (hashMap r)) then Some replicas'
            else walk r rFactor idx' replicas' seen')
      else Some replicas)"

definition GetReplicasForKey :: "Ring \<Rightarrow> string \<Rightarrow> int \<Rightarrow> NodeInfo list option" where
  "GetReplicasForKey r key rFactor =
     (if length (hashes r) = 0 \<or> rFactor \<le> 0 then Some []
      else
        (let rFactor' = (if rFactor > int (length (hashes r)) then int (length (hashes r))
                         else rFactor);
             h = hashFn key;
             idx = Search (length (hashes r)) (\<lambda>i. hashes r ! i \<ge> h);
             idx' = (if idx = length (hashes r) then 0 else idx)
         in walk r rFactor' idx' [] {}))"

section \<open>Local store\<close>

text \<open>Package kv: a map from key to value behind a lock.\<close>

record Store =
  data :: "string \<rightharpoonup> string"

definition NewStore :: Store where
  "NewStore = \<lparr>data = Map.empty\<rparr>"

definition Store_Put :: "Store \<Rightarrow> string \<Rightarrow> string \<Rightarrow> Store" where
  "Store_Put s key val = s\<lparr>data := (data s)(key \<mapsto> val)\<rparr>"

text \<open>\<open>val, ok := s.data[key]\<close>: a missing key reads as the empty string and \<open>false\<close>.\<close>

definition Store_Get :: "Store \<Rightarrow> string \<Rightarrow> string \<times> bool" where
  "Store_Get s key = (case data s key of None \<Rightarrow> ([], False) | Some val \<Rightarrow> (val, True))"

definition Store_Delete :: "Store \<Rightarrow> string \<Rightarrow> Store" where
  "Store_Delete s key = s\<lparr>data := (data s)(key := None)\<rparr>"


section \<open>Router\<close>

text \<open>
  The router of package cluster. The local store is reached through a pointer and
  changed in place; here every operation returns the router with its store updated.
\<close>

record Router =
  localStore :: Store
  nodeID :: NodeID
  selfHost :: string
  ring :: Ring
  replicationFactor :: int

definition NewRouter :: "Store \<Rightarrow> NodeID \<Rightarrow> string \<Rightarrow> Ring \<Rightarrow> int \<Rightarrow> Router" where
  "NewRouter local nid host rng rf =
     \<lparr>localStore = local, nodeID = nid, selfHost = host, ring = rng,
      replicationFactor = (if rf < 1 then 1 else rf)\<rparr>"

definition isLocal :: "Router \<Rightarrow> NodeInfo \<Rightarrow> bool" where
  "isLocal r node \<longleftrightarrow> ID node = nodeID r"

text \<open>
  The HTTP client is the environment. A call returns \<open>None\<close> when Go's \<open>err\<close> is not
  nil and the response otherwise. The first argument counts the requests the client has
  issued before, so the same peer may answer two requests differently. The POST body is
  the JSON of key and value, the GET query carries the key; both are passed as they are.
  \<open>url_Parse\<close> tells whether \<open>url.Parse\<close> accepts a URL.
\<close>

record Response =
  StatusCode :: int
  Body :: string

record Client =
  client_Post :: "nat \<Rightarrow> string \<Rightarrow> string \<Rightarrow> string \<Rightarrow> Response option"
  client_Get :: "nat \<Rightarrow> string \<Rightarrow> string \<Rightarrow> Response option"
  url_Parse :: "string \<Rightarrow> bool"

text \<open>
  Go errors as values: the per-replica errors appended to \<open>errs\<close> (with the host they
  name), and the errors the router returns.
\<close>

datatype replica_error = PutFailed string | PutStatus string int

datatype error = NoReplicas | ReplicationErrors "replica_error list" | Cancelled

definition putURL :: "NodeInfo \<Rightarrow> string" where
  "putURL node = ''http://'' @ Host node @ ''/internal/replica/put''"

definition getURL :: "NodeInfo \<Rightarrow> string" where
  "getURL node = ''http://'' @ Host node @ ''/internal/replica/get''"

text \<open>
  The loop of \<open>Router.Put\<close> over the replicas, with the store, the request counter and
  \<open>errs\<close> as its state.
\<close>

fun Put_loop ::
  "Router \<Rightarrow> Client \<Rightarrow> string \<Rightarrow> string \<Rightarrow> NodeInfo list \<Rightarrow> Store \<Rightarrow> nat \<Rightarrow> replica_error list
     \<Rightarrow> Store \<times> nat \<times> replica_error list" where
  "Put_loop r cl key val [] s c errs = (s, c, errs)"
| "Put_loop r cl key val (node # rest) s c errs =
     (if isLocal r node then Put_loop r cl key val rest (Store_Put s key val) c errs
      else
        (case client_Post cl c (putURL node) key val of
           None \<Rightarrow> Put_loop r cl key val rest s (c + 1) (errs @ [PutFailed (Host node)])
         | Some resp \<Rightarrow>
             if StatusCode resp \<ge> 300
             then Put_loop r cl key val rest s (c + 1)
                    (errs @ [PutStatus (Host node) (StatusCode resp)])
             else Put_loop r cl key val rest s (c + 1) errs))"

text \<open>
  \<open>Router.Put\<close>: the returned error, the router and the request counter; \<open>None\<close> when
  the replica walk does not return.
\<close>

definition Router_Put ::
  "Router \<Rightarrow> Client \<Rightarrow> nat \<Rightarrow> string \<Rightarrow> string \<Rightarrow> (error option \<times> Router \<times> nat) option" where
  "Router_Put r cl c key val =
     (case GetReplicasForKey (ring r) key (replicationFactor r) of
        None \<Rightarrow> None
      | Some replicas \<Rightarrow>
          Some (if length replicas = 0 then (Some NoReplicas, r, c)
                else
                  (case Put_loop r cl key val replicas (localStore r) c [] of
                     (s, c', errs) \<Rightarrow>
                       (if length errs > 0 then Some (ReplicationErrors errs) else None,
                        r\<lparr>localStore := s\<rparr>, c'))))"

text \<open>The loop of \<open>Router.Get\<close>: value, found flag and error, and the request counter.\<close>

fun Get_loop ::
  "Router \<Rightarrow> Client \<Rightarrow> string \<Rightarrow> NodeInfo list \<Rightarrow> nat \<Rightarrow> (string \<times> bool \<times> error option) \<times> nat" where
  "Get_loop r cl key [] c = (([], False, None), c)"
| "Get_loop r cl key (node # rest) c =
     (if isLocal r node then
        (case Store_Get (localStore r) key of
           (val, ok) \<Rightarrow> if ok then ((val, True, None), c) else Get_loop r cl key rest c)
      else if \<not> url_Parse cl (getURL node) then Get_loop r cl key rest c
      else
        (case client_Get cl c (getURL node) key of
           None \<Rightarrow> Get_loop r cl key rest (c + 1)
         | Some resp \<Rightarrow>
             if StatusCode resp = 404 then Get_loop r cl key rest (c + 1)
             else if StatusCode resp \<ge> 300 then Get_loop r cl key rest (c + 1)
             else ((Body resp, True, None), c + 1)))"

definition Router_Get ::
  "Router \<Rightarrow> Client \<Rightarrow> nat \<Rightarrow> string \<Rightarrow> ((string \<times> bool \<times> error option) \<times> nat) option" where
  "Router_Get r cl c key =
     (case GetReplicasForKey (ring r) key (replicationFactor r) of
        None \<Rightarrow> None
      | Some replicas \<Rightarrow>
          Some (if length replicas = 0 then (([], False, Some NoReplicas), c)
                else Get_loop r cl key replicas c))"

section \<open>Rebalancer\<close>





section \<open>Client API\<close>

text \<open>
  What a handler writes: the status code and the body, which is either text or the
  message of an error (\<open>http.Error(w, err.Error(), code)\<close>).
\<close>

datatype body = Text string | ErrorText error

definition HandleGetDistributed ::
  "Router \<Rightarrow> Client \<Rightarrow> nat \<Rightarrow> string \<Rightarrow> ((int \<times> body) \<times> nat) option" where
  "HandleGetDistributed r cl c key =
     (case Router_Get r cl c key of
        None \<Rightarrow> None
      | Some ((val, ok, err), c') \<Rightarrow>
          Some (case err of
                  Some e \<Rightarrow> (502, ErrorText e)
                | None \<Rightarrow> if \<not> ok then (404, Text ''not found'') else (200, Text val),
                c'))"

section \<open>Cluster configuration\<close>

text \<open>
  Go's package strings, for the one-byte separators that \<open>parseClusterNodes\<close> passes.
  \<open>IndexByte\<close> is \<open>strings.Index\<close> (\<open>None\<close> for \<open>-1\<close>), \<open>Count\<close> counts the separators,
  \<open>genSplit\<close> cuts at most \<open>n - 1\<close> times and leaves the rest in the last piece.
\<close>

fun IndexByte :: "string \<Rightarrow> char \<Rightarrow> nat option" where
  "IndexByte [] sep = None"
| "IndexByte (x # xs) sep = (if x = sep then Some 0 else map_option Suc (IndexByte xs sep))"

definition Count :: "string \<Rightarrow> char \<Rightarrow> nat" where
  "Count s sep = length (filter (\<lambda>x. x = sep) s)"

fun genSplit_loop :: "string \<Rightarrow> char \<Rightarrow> nat \<Rightarrow> string list" where
  "genSplit_loop s sep 0 = [s]"
| "genSplit_loop s sep (Suc n) =
     (case IndexByte s sep of
        None \<Rightarrow> [s]
      | Some m \<Rightarrow> take m s # genSplit_loop (drop (m + 1) s) sep n)"

definition genSplit :: "string \<Rightarrow> char \<Rightarrow> int \<Rightarrow> string list" where
  "genSplit s sep n =
     (if n = 0 then []
      else
        (let n1 = (if n < 0 then int (Count s sep) + 1 else n);
             n2 = (if n1 > int (length s) + 1 then int (length s) + 1 else n1)
         in genSplit_loop s sep (nat (n2 - 1))))"

definition Split :: "string \<Rightarrow> char \<Rightarrow> string list" where
  "Split s sep = genSplit s sep (- 1)"

definition SplitN :: "string \<Rightarrow> char \<Rightarrow> int \<Rightarrow> string list" where
  "SplitN s sep n = genSplit s sep n"

text \<open>
  \<open>strings.TrimSpace\<close> removes the leading and trailing white space of Unicode. On the
  bytes of a string these are the UTF-8 encodings of the code points of
  \<open>unicode.IsSpace\<close>: tab to carriage return, space, U+0085, U+00A0, U+1680, U+2000 to
  U+200A, U+2028, U+2029, U+202F, U+205F and U+3000.
\<close>

definition whiteSpace :: "string list" where
  "whiteSpace =
     [[CHR 0x09], [CHR 0x0A], [CHR 0x0B], [CHR 0x0C], [CHR 0x0D], [CHR 0x20],
      [CHR 0xC2, CHR 0x85], [CHR 0xC2, CHR 0xA0],
      [CHR 0xE1, CHR 0x9A, CHR 0x80],
      [CHR 0xE2, CHR 0x80, CHR 0x80], [CHR 0xE2, CHR 0x80, CHR 0x81],
      [CHR 0xE2, CHR 0x80, CHR 0x82], [CHR 0xE2, CHR 0x80, CHR 0x83],
      [CHR 0xE2, CHR 0x80, CHR 0x84], [CHR 0xE2, CHR 0x80, CHR 0x85],
      [CHR 0xE2, CHR 0x80, CHR 0x86], [CHR 0xE2, CHR 0x80, CHR 0x87],
      [CHR 0xE2, CHR 0x80, CHR 0x88], [CHR 0xE2, CHR 0x80, CHR 0x89],
      [CHR 0xE2, CHR 0x80, CHR 0x8A],
      [CHR 0xE2, CHR 0x80, CHR 0xA8], [CHR 0xE2, CHR 0x80, CHR 0xA9],
      [CHR 0xE2, CHR 0x80, CHR 0xAF], [CHR 0xE2, CHR 0x81, CHR 0x9F],
      [CHR 0xE3, CHR 0x80, CHR 0x80]]"

text \<open>The width in bytes of the white space at the start, or at the end, of a string.\<close>

definition leadingSpace :: "string \<Rightarrow> nat" where
  "leadingSpace s = (case find (\<lambda>w. prefix w s) whiteSpace of None \<Rightarrow> 0 | Some w \<Rightarrow> length w)"

definition trailingSpace :: "string \<Rightarrow> nat" where
  "trailingSpace s = (case find (\<lambda>w. suffix w s) whiteSpace of None \<Rightarrow> 0 | Some w \<Rightarrow> length w)"

function TrimLeftSpace :: "string \<Rightarrow> string" where
  "TrimLeftSpace s =
     (if 0 < leadingSpace s \<and> leadingSpace s \<le> length s
      then TrimLeftSpace (drop (leadingSpace s) s) else s)"
  by pat_completeness auto
termination
  by (relation "measure length") auto

function TrimRightSpace :: "string \<Rightarrow> string" where
  "TrimRightSpace s =
     (if 0 < trailingSpace s \<and> trailingSpace s \<le> length s
      then TrimRightSpace (take (length s - trailingSpace s) s) else s)"
  by pat_completeness auto
termination
  by (relation "measure length") auto

declare TrimLeftSpace.simps [simp del] TrimRightSpace.simps [simp del]

definition TrimSpace :: "string \<Rightarrow> string" where
  "TrimSpace s = TrimRightSpace (TrimLeftSpace s)"

text \<open>
  Indexing a Go slice panics out of range. \<open>parseClusterNodes\<close> returns the node list,
  or the panic that stopped it.
\<close>

datatype panic = IndexOutOfRange

definition index :: "'a list \<Rightarrow> nat \<Rightarrow> panic + 'a" where
  "index xs i = (if i < length xs then Inr (xs ! i) else Inl IndexOutOfRange)"

fun parse_loop :: "string list \<Rightarrow> NodeInfo list \<Rightarrow> panic + NodeInfo list" where
  "parse_loop [] nodes = Inr nodes"
| "parse_loop (p # parts) nodes =
     (let p' = TrimSpace p
      in if p' = [] then parse_loop parts nodes
         else
           (let pair = SplitN p' (CHR ''='') 2
            in if length pair \<noteq> 2 then parse_loop parts nodes
               else
                 (case index pair 0 of
                    Inl e \<Rightarrow> Inl e
                  | Inr nid \<Rightarrow>
                      (case index pair 1 of
                         Inl e \<Rightarrow> Inl e
                       | Inr host \<Rightarrow> parse_loop parts (nodes @ [\<lparr>ID = nid, Host = host\<rparr>])))))"

definition parseClusterNodes :: "string \<Rightarrow> panic + NodeInfo list" where
  "parseClusterNodes env =
     (if env = [] then Inr [] else parse_loop (Split env (CHR '','')) [])"

text \<open>
  The words of the specification for one entry of \<open>CLUSTER_NODES\<close>: an entry that is
  empty after trimming, or has no \<open>=\<close>, gives no node; an entry \<open>id=host\<close> gives the node
  with the text before the first \<open>=\<close> as id and the text after it as host.
\<close>

definition entry_node :: "string \<Rightarrow> NodeInfo option" where
  "entry_node p =
     (let t = TrimSpace p
      in if t = [] then None
         else if CHR ''='' \<in> set t
         then Some \<lparr>ID = takeWhile (\<lambda>c. c \<noteq> CHR ''='') t,
                    Host = tl (dropWhile (\<lambda>c. c \<noteq> CHR ''='') t)\<rparr>
         else None)"

section \<open>The words of the specification for the router\<close>

text \<open>
  What one replica answers to a read: the value it holds, a definitive not-found, or no
  answer (a transport error, a failure status, a URL that does not parse).
\<close>

datatype answer = Value string | Absent | Failed

definition local_answer :: "Store \<Rightarrow> string \<Rightarrow> answer" where
  "local_answer s key = (case data s key of None \<Rightarrow> Absent | Some v \<Rightarrow> Value v)"

definition remote_answer :: "Response option \<Rightarrow> answer" where
  "remote_answer res =
     (case res of
        None \<Rightarrow> Failed
      | Some resp \<Rightarrow>
          if StatusCode resp = 404 then Absent
          else if StatusCode resp \<ge> 300 then Failed
          else Value (Body resp))"

text \<open>
  The answer of each replica at its turn, in ring order: request \<open>c\<close> goes to the first
  remote replica whose URL parses, the next request to the next one.
\<close>

fun answers :: "Router \<Rightarrow> Client \<Rightarrow> string \<Rightarrow> NodeInfo list \<Rightarrow> nat \<Rightarrow> answer list" where
  "answers r cl key [] c = []"
| "answers r cl key (node # rest) c =
     (if isLocal r node then local_answer (localStore r) key # answers r cl key rest c
      else if url_Parse cl (getURL node)
      then remote_answer (client_Get cl c (getURL node) key) # answers r cl key rest (c + 1)
      else Failed # answers r cl key rest c)"

text \<open>The first value in a list of answers; not-found and failure are passed over alike.\<close>

fun first_value :: "answer list \<Rightarrow> string option" where
  "first_value [] = None"
| "first_value (Value v # rest) = Some v"
| "first_value (Absent # rest) = first_value rest"
| "first_value (Failed # rest) = first_value rest"

text \<open>
  The per-replica errors of a write to the remote replicas, in order: request \<open>c\<close> goes to
  the first of them, the next request to the next one, whatever the earlier ones gave.
\<close>

fun put_errors :: "Client \<Rightarrow> string \<Rightarrow> string \<Rightarrow> NodeInfo list \<Rightarrow> nat \<Rightarrow> replica_error list" where
  "put_errors cl key val [] c = []"
| "put_errors cl key val (node # rest) c =
     (case client_Post cl c (putURL node) key val of
        None \<Rightarrow> PutFailed (Host node) # put_errors cl key val rest (c + 1)
      | Some resp \<Rightarrow>
          if StatusCode resp \<ge> 300
          then PutStatus (Host node) (StatusCode resp) # put_errors cl key val rest (c + 1)
          else put_errors cl key val rest (c + 1))"





section \<open>Example configurations\<close>

text \<open>
  Two peers; a client that reaches no peer, a client whose peers accept every write, and a
  client whose first request fails and whose later requests succeed.
\<close>

definition peer2 :: NodeInfo where
  "peer2 = \<lparr>ID = ''n2'', Host = ''h2''\<rparr>"

definition peer3 :: NodeInfo where
  "peer3 = \<lparr>ID = ''n3'', Host = ''h3''\<rparr>"

definition flaky :: Client where
  "flaky =
     \<lparr>client_Post = (\<lambda>c url key val. if c = 0 then None
                                        else Some \<lparr>StatusCode = 200, Body = ''OK''\<rparr>),
      client_Get = (\<lambda>c url key. if c = 0 then None
                                    else Some \<lparr>StatusCode = 200, Body = ''bar''\<rparr>),
      url_Parse = (\<lambda>url. True)\<rparr>"

definition unreachable :: Client where
  "unreachable =
     \<lparr>client_Post = (\<lambda>c url key val. None), client_Get = (\<lambda>c url key. None),
      url_Parse = (\<lambda>url. True)\<rparr>"

definition reachable :: Client where
  "reachable =
     \<lparr>client_Post = (\<lambda>c url key val. Some \<lparr>StatusCode = 200, Body = ''OK''\<rparr>),
      client_Get = (\<lambda>c url key. Some \<lparr>StatusCode = 404, Body = ''not found''\<rparr>),
      url_Parse = (\<lambda>url. True)\<rparr>"

text \<open>A context that is never cancelled.\<close>

definition background :: "nat \<Rightarrow> bool" where
  "background i = False"

text \<open>
  Node \<open>n1\<close> holding key \<open>k\<close>: on an empty ring, on a ring whose only node is a peer,
  and on a ring of the two peers with two replicas per key.
\<close>

definition emptyRouter :: Router where
  "emptyRouter =
     NewRouter (Store_Put NewStore ''k'' ''v'') ''n1'' ''h1'' (NewRing [] 100) 3"

definition awayRouter :: Router where
  "awayRouter =
     NewRouter (Store_Put NewStore ''k'' ''v'') ''n1'' ''h1'' (NewRing [peer2] 1) 1"

definition pairRouter :: Router where
  "pairRouter =
     NewRouter (Store_Put NewStore ''k'' ''v'') ''n1'' ''h1'' (NewRing [peer2, peer3] 1) 2"


section \<open>Notions used in the proofs\<close>

text \<open>The hash of slot \<open>i\<close> of a node, as \<open>addNodeNoLock\<close> computes it.\<close>

definition slotHash :: "NodeInfo \<Rightarrow> nat \<Rightarrow> u32" where
  "slotHash n i = hashFn (vKey (ID n) (int i))"

text \<open>The ids that a walk over the ring can meet: one per slot of \<open>hashes\<close>.\<close>

definition slotIDs :: "Ring \<Rightarrow> NodeID set" where
  "slotIDs r = (\<lambda>h. ID (lookupNode (hashMap r) h)) ` set (hashes r)"

text \<open>
  A state of the walk from which neither exit is reachable: the ring has fewer ids than
  the factor asks for and fewer ids than \<open>hashMap\<close> has keys.
\<close>

definition stuck :: "Ring \<Rightarrow> int \<Rightarrow> nat \<Rightarrow> NodeInfo list \<Rightarrow> NodeID set \<Rightarrow> bool" where
  "stuck r rFactor idx replicas seen \<longleftrightarrow>
     int (card (slotIDs r)) < rFactor \<and> card (slotIDs r) < card (dom (hashMap r)) \<and>
     seen \<subseteq> slotIDs r \<and> length replicas \<le> card seen \<and> idx < length (hashes r)"


section \<open>The replica walk\<close>

lemma finite_slotIDs: "finite (slotIDs r)"
  by (simp add: slotIDs_def)

lemma stuck_step:
  assumes "stuck r rFactor idx replicas seen"
  defines "node \<equiv> lookupNode (hashMap r) (hashes r ! idx)"
  defines "seen' \<equiv> (if ID node \<in> seen then seen else insert (ID node) seen)"
  defines "replicas' \<equiv> (if ID node \<in> seen then replicas else replicas @ [node])"
  shows "int (length replicas) < rFactor"
    and "card seen' \<noteq> card (dom (hashMap r))"
    and "stuck r rFactor ((idx + 1) mod length (hashes r)) replicas' seen'"
proof -
  from assms(1) have a: "int (card (slotIDs r)) < rFactor"
    and b: "card (slotIDs r) < card (dom (hashMap r))"
    and c: "seen \<subseteq> slotIDs r" and d: "length replicas \<le> card seen"
    and e: "idx < length (hashes r)"
    by (simp_all add: stuck_def)
  have fin: "finite seen" using c finite_slotIDs by (rule finite_subset)
  have "card seen \<le> card (slotIDs r)" using c by (simp add: card_mono finite_slotIDs)
  with a d show "int (length replicas) < rFactor" by linarith
  have "ID node \<in> slotIDs r"
    using e by (auto simp: slotIDs_def node_def)
  with c have c': "seen' \<subseteq> slotIDs r" by (simp add: seen'_def)
  then have "card seen' \<le> card (slotIDs r)" by (simp add: card_mono finite_slotIDs)
  with b show "card seen' \<noteq> card (dom (hashMap r))" by linarith
  have d': "length replicas' \<le> card seen'"
    using d fin by (simp add: seen'_def replicas'_def)
  from e have "0 < length (hashes r)" by (cases "hashes r") simp_all
  then have "(idx + 1) mod length (hashes r) < length (hashes r)"
    by (rule mod_less_divisor)
  with a b c' d' show "stuck r rFactor ((idx + 1) mod length (hashes r)) replicas' seen'"
    by (simp add: stuck_def)
qed

lemma walk_Some_not_stuck:
  assumes ret: "walk r rFactor idx replicas seen = Some y"
  shows "\<not> stuck r rFactor idx replicas seen"
proof (rule walk.raw_induct
    [where P = "\<lambda>r rFactor idx replicas seen y. \<not> stuck r rFactor idx replicas seen",
      OF _ ret])
  fix walk' :: "Ring \<Rightarrow> int \<Rightarrow> nat \<Rightarrow> NodeInfo list \<Rightarrow> NodeID set \<Rightarrow> NodeInfo list option"
    and r :: Ring and rFactor idx replicas seen y
  assume IH: "\<And>(r :: Ring) rFactor idx replicas seen y.
      walk' r rFactor idx replicas seen = Some y \<Longrightarrow> \<not> stuck r rFactor idx replicas seen"
  let ?node = "lookupNode (hashMap r) (hashes r ! idx)"
  let ?seen' = "if ID ?node \<in> seen then seen else insert (ID ?node) seen"
  let ?replicas' = "if ID ?node \<in> seen then replicas else replicas @ [?node]"
  let ?idx' = "(idx + 1) mod length (hashes r)"
  assume body: "(if int (length replicas) < rFactor then
        (let hash = hashes r ! idx;
             node = lookupNode (hashMap r) hash;
             seen' = (if ID node \<in> seen then seen else insert (ID node) seen);
             replicas' = (if ID node \<in> seen then replicas else replicas @ [node]);
             idx' = (idx + 1) mod length (hashes r)
         in if card seen' = card (dom (hashMap r)) then Some replicas'
            else walk' r rFactor idx' replicas' seen')
      else Some replicas) = Some y"
  show "\<not> stuck r rFactor idx replicas seen"
  proof
    assume s: "stuck r rFactor idx replicas seen"
    note st = stuck_step [OF s]
    from body st(1) st(2) have "walk' r rFactor ?idx' ?replicas' ?seen' = Some y"
      by (simp add: Let_def)
    from IH [OF this] st(3) show False by simp
  qed
qed

lemma walk_diverges: "stuck r rFactor idx replicas seen \<Longrightarrow> walk r rFactor idx replicas seen = None"
  using walk_Some_not_stuck by (cases "walk r rFactor idx replicas seen") auto

lemma Search_loop_bounds: "i \<le> j \<Longrightarrow> i \<le> Search_loop f i j \<and> Search_loop f i j \<le> j"
proof (induction f i j rule: Search_loop.induct)
  case (1 f i j)
  show ?case
  proof (cases "i < j")
    case False
    with "1.prems" show ?thesis by simp
  next
    case True
    let ?h = "(i + j) div 2"
    from True have h: "i \<le> ?h" "?h < j" by auto
    show ?thesis
    proof (cases "f ?h")
      case True
      with \<open>i < j\<close> "1.IH"(2) [OF \<open>i < j\<close> refl] h
      show ?thesis by (simp add: Let_def)
    next
      case False
      with \<open>i < j\<close> "1.IH"(1) [OF \<open>i < j\<close> refl] h
      show ?thesis by (simp add: Let_def)
    qed
  qed
qed

lemma Search_le: "Search n f \<le> n"
  using Search_loop_bounds [of 0 n f] by (simp add: Search_def)

lemma GetReplicasForKey_diverges:
  assumes "hashes r \<noteq> []"
    and "int (card (slotIDs r)) < rFactor"
    and "card (slotIDs r) < length (hashes r)"
    and "card (slotIDs r) < card (dom (hashMap r))"
  shows "GetReplicasForKey r key rFactor = None"
proof -
  let ?n = "length (hashes r)"
  let ?rf = "if rFactor > int ?n then int ?n else rFactor"
  let ?idx = "Search ?n (\<lambda>i. hashes r ! i \<ge> hashFn key)"
  let ?idx' = "if ?idx = ?n then 0 else ?idx"
  have "?idx \<le> ?n" by (rule Search_le)
  with assms(1) have "?idx' < ?n" by auto
  moreover have "int (card (slotIDs r)) < ?rf" using assms(2,3) by simp
  ultimately have "stuck r ?rf ?idx' [] {}"
    using assms(4) by (simp add: stuck_def)
  then have "walk r ?rf ?idx' [] {} = None" by (rule walk_diverges)
  moreover have "0 < rFactor" using assms(2) by linarith
  ultimately show ?thesis
    using assms(1) by (simp add: GetReplicasForKey_def Let_def)
qed

lemma addSlot_fields:
  "vNodes (addSlot n r i) = vNodes r"
  "hashes (addSlot n r i) = hashes r @ [slotHash n i]"
  "hashMap (addSlot n r i) = (hashMap r)(slotHash n i \<mapsto> n)"
  by (simp_all add: addSlot_def slotHash_def Let_def)

lemma foldl_addSlot_vNodes: "vNodes (foldl (addSlot n) r js) = vNodes r"
  by (induction js arbitrary: r) (simp_all add: addSlot_fields)

lemma foldl_addSlot_hashes:
  "hashes (foldl (addSlot n) r js) = hashes r @ map (slotHash n) js"
  by (induction js arbitrary: r) (simp_all add: addSlot_fields)

lemma foldl_addSlot_dom:
  "dom (hashMap (foldl (addSlot n) r js)) = dom (hashMap r) \<union> slotHash n ` set js"
  by (induction js arbitrary: r) (auto simp: addSlot_fields)

lemma foldl_addSlot_ran:
  "ran (hashMap (foldl (addSlot n) r js)) \<subseteq> insert n (ran (hashMap r))"
proof (induction js arbitrary: r)
  case Nil
  show ?case by auto
next
  case (Cons j js)
  have "ran (hashMap (addSlot n r j)) \<subseteq> insert n (ran (hashMap r))"
    by (auto simp: ran_def addSlot_fields)
  with Cons [of "addSlot n r j"] show ?case
    by (simp del: fun_upd_apply) blast
qed

lemma foldl_addSlot_lookup:
  "j \<in> set js \<Longrightarrow> hashMap (foldl (addSlot n) r js) (slotHash n j) = Some n"
proof (induction js arbitrary: r rule: rev_induct)
  case Nil
  then show ?case by simp
next
  case (snoc x xs)
  then show ?case by (auto simp: addSlot_fields)
qed

lemma addNodeNoLock_vNodes: "vNodes (addNodeNoLock r n) = vNodes r"
  by (simp add: addNodeNoLock_def foldl_addSlot_vNodes)

lemma addNodeNoLock_hashes:
  "hashes (addNodeNoLock r n) = hashes r @ map (slotHash n) [0..<nat (vNodes r)]"
  by (simp add: addNodeNoLock_def foldl_addSlot_hashes)

lemma addNodeNoLock_dom:
  "dom (hashMap (addNodeNoLock r n)) = dom (hashMap r) \<union> slotHash n ` {0..<nat (vNodes r)}"
  by (simp add: addNodeNoLock_def foldl_addSlot_dom)

lemma addNodeNoLock_ran:
  "ran (hashMap (addNodeNoLock r n)) \<subseteq> insert n (ran (hashMap r))"
  by (simp add: addNodeNoLock_def foldl_addSlot_ran)

lemma foldl_addNodeNoLock_vNodes: "vNodes (foldl addNodeNoLock r nodes) = vNodes r"
  by (induction nodes arbitrary: r) (simp_all add: addNodeNoLock_vNodes)

lemma foldl_addNodeNoLock_hashes:
  "set (hashes (foldl addNodeNoLock r nodes)) =
     set (hashes r) \<union> (\<Union>n\<in>set nodes. slotHash n ` {0..<nat (vNodes r)})"
  by (induction nodes arbitrary: r)
    (auto simp: addNodeNoLock_vNodes addNodeNoLock_hashes)

lemma foldl_addNodeNoLock_length:
  "length (hashes (foldl addNodeNoLock r nodes)) =
     length (hashes r) + length nodes * nat (vNodes r)"
  by (induction nodes arbitrary: r)
    (simp_all add: addNodeNoLock_vNodes addNodeNoLock_hashes)

lemma foldl_addNodeNoLock_dom:
  "dom (hashMap (foldl addNodeNoLock r nodes)) =
     dom (hashMap r) \<union> (\<Union>n\<in>set nodes. slotHash n ` {0..<nat (vNodes r)})"
  by (induction nodes arbitrary: r)
    (auto simp: addNodeNoLock_vNodes addNodeNoLock_dom)

lemma foldl_addNodeNoLock_ran:
  "ran (hashMap (foldl addNodeNoLock r nodes)) \<subseteq> ran (hashMap r) \<union> set nodes"
proof (induction nodes arbitrary: r)
  case Nil
  show ?case by simp
next
  case (Cons n nodes)
  from Cons [of "addNodeNoLock r n"] addNodeNoLock_ran [of r n]
  show ?case by auto
qed

lemma NewRing_hashes:
  "set (hashes (NewRing nodes v)) = (\<Union>n\<in>set nodes. slotHash n ` {0..<nat v})"
  by (simp add: NewRing_def sortHashes_def foldl_addNodeNoLock_hashes)

lemma NewRing_length:
  "length (hashes (NewRing nodes v)) = length nodes * nat v"
  by (simp add: NewRing_def sortHashes_def foldl_addNodeNoLock_length)

lemma NewRing_dom:
  "dom (hashMap (NewRing nodes v)) = (\<Union>n\<in>set nodes. slotHash n ` {0..<nat v})"
  by (simp add: NewRing_def sortHashes_def foldl_addNodeNoLock_dom)

lemma NewRing_ran: "ran (hashMap (NewRing nodes v)) \<subseteq> set nodes"
  using foldl_addNodeNoLock_ran [of "\<lparr>vNodes = v, hashes = [], hashMap = Map.empty\<rparr>" nodes]
  by (simp add: NewRing_def sortHashes_def)

lemma NewRing_slotIDs: "slotIDs (NewRing nodes v) \<subseteq> ID ` set nodes"
proof
  fix i
  assume "i \<in> slotIDs (NewRing nodes v)"
  then obtain h where h: "h \<in> set (hashes (NewRing nodes v))"
    and i: "i = ID (lookupNode (hashMap (NewRing nodes v)) h)"
    by (auto simp: slotIDs_def)
  from h have "h \<in> dom (hashMap (NewRing nodes v))"
    by (simp only: NewRing_hashes NewRing_dom)
  then obtain n where n: "hashMap (NewRing nodes v) h = Some n" by auto
  then have "n \<in> ran (hashMap (NewRing nodes v))" by (auto simp: ran_def)
  with NewRing_ran have "n \<in> set nodes" by auto
  with i n show "i \<in> ID ` set nodes" by (simp add: lookupNode_def)
qed

lemma NewRing_card_slotIDs: "card (slotIDs (NewRing nodes v)) \<le> length nodes"
proof -
  have "card (slotIDs (NewRing nodes v)) \<le> card (ID ` set nodes)"
    by (rule card_mono) (simp_all add: NewRing_slotIDs)
  also have "\<dots> \<le> card (set nodes)" by (rule card_image_le) simp
  also have "\<dots> \<le> length nodes" by (rule card_length)
  finally show ?thesis .
qed

lemma NewRing_card_dom:
  assumes "n \<in> set nodes" and "distinct (map (slotHash n) js)" and "set js \<subseteq> {0..<nat v}"
  shows "length js \<le> card (dom (hashMap (NewRing nodes v)))"
proof -
  have "slotHash n ` set js \<subseteq> dom (hashMap (NewRing nodes v))"
    using assms(1,3) by (auto simp: NewRing_dom)
  moreover have "finite (dom (hashMap (NewRing nodes v)))"
    by (simp add: NewRing_dom)
  ultimately have "card (slotHash n ` set js) \<le> card (dom (hashMap (NewRing nodes v)))"
    by (rule card_mono [rotated])
  moreover have "card (slotHash n ` set js) = length js"
    using assms(2) distinct_card [of "map (slotHash n) js"] by simp
  ultimately show ?thesis by simp
qed

lemmas hash_defs = slotHash_def hashFn_def Sum32_def Write32a_def New32a_def offset32_def prime32_def
  vKey_def Sprintf_d_def digit_def

text \<open>
  Claim C1. The walk of \<open>GetReplicasForKey\<close> is claimed to terminate for every ring,
  key and factor, by the early exit. The exit compares the number of ids seen with the
  number of keys of \<open>hashMap\<close>, which is the number of slots and not of physical nodes.
  On the ring of one node with two virtual nodes and factor 2 the walk never returns,
  whatever the key.
\<close>

theorem single_node_walk_diverges:
  "GetReplicasForKey (NewRing [\<lparr>ID = ''n1'', Host = ''h1''\<rparr>] 2) key 2 = None"
proof (rule GetReplicasForKey_diverges)
  let ?n = "\<lparr>ID = ''n1'', Host = ''h1''\<rparr>"
  let ?r = "NewRing [?n] 2"
  have len: "length (hashes ?r) = 2" by (simp add: NewRing_length)
  then show "hashes ?r \<noteq> []" by auto
  have ids: "card (slotIDs ?r) \<le> 1" using NewRing_card_slotIDs [of "[?n]" 2] by simp
  then show "int (card (slotIDs ?r)) < 2" by simp
  from ids len show "card (slotIDs ?r) < length (hashes ?r)" by simp
  have "length [0, 1::nat] \<le> card (dom (hashMap ?r))"
    by (rule NewRing_card_dom [of ?n]) (simp_all add: hash_defs)
  with ids show "card (slotIDs ?r) < card (dom (hashMap ?r))" by simp
qed

text \<open>
  Claim C2. On a ring of one physical node the replica list is claimed to be that node
  alone, for every key and every factor from 1 up. The ring that the node builds when no
  peer list is configured (node \<open>node1\<close>, 100 virtual nodes) with the default factor 3
  gives no list at all: the walk never returns.
\<close>

theorem default_deployment_diverges:
  "GetReplicasForKey (NewRing [\<lparr>ID = ''node1'', Host = ''localhost:8081''\<rparr>] 100) key 3 = None"
proof (rule GetReplicasForKey_diverges)
  let ?n = "\<lparr>ID = ''node1'', Host = ''localhost:8081''\<rparr>"
  let ?r = "NewRing [?n] 100"
  have len: "length (hashes ?r) = 100" by (simp add: NewRing_length)
  then show "hashes ?r \<noteq> []" by auto
  have ids: "card (slotIDs ?r) \<le> 1" using NewRing_card_slotIDs [of "[?n]" 100] by simp
  then show "int (card (slotIDs ?r)) < 3" by simp
  from ids len show "card (slotIDs ?r) < length (hashes ?r)" by simp
  have "length [0, 1::nat] \<le> card (dom (hashMap ?r))"
    by (rule NewRing_card_dom [of ?n]) (simp_all add: hash_defs)
  with ids show "card (slotIDs ?r) < card (dom (hashMap ?r))" by simp
qed

text \<open>
  Claim C3. On a non-empty ring the replica list is claimed to have length
  \<open>min rFactor\<close> (number of distinct node ids) and no duplicate id. On the ring of three
  nodes with 100 virtual nodes each and factor 4 no list is returned: three ids are
  fewer than the factor and fewer than the slots, so the walk never returns.
\<close>

theorem three_nodes_factor_four_diverges:
  "GetReplicasForKey
     (NewRing [\<lparr>ID = ''node1'', Host = ''localhost:8081''\<rparr>,
               \<lparr>ID = ''node2'', Host = ''localhost:8082''\<rparr>,
               \<lparr>ID = ''node3'', Host = ''localhost:8083''\<rparr>] 100) key 4 = None"
proof (rule GetReplicasForKey_diverges)
  let ?n = "\<lparr>ID = ''node1'', Host = ''localhost:8081''\<rparr>"
  let ?ns = "[?n, \<lparr>ID = ''node2'', Host = ''localhost:8082''\<rparr>,
               \<lparr>ID = ''node3'', Host = ''localhost:8083''\<rparr>]"
  let ?r = "NewRing ?ns 100"
  have len: "length (hashes ?r) = 300" by (simp add: NewRing_length)
  then show "hashes ?r \<noteq> []" by auto
  have ids: "card (slotIDs ?r) \<le> 3" using NewRing_card_slotIDs [of ?ns 100] by simp
  then show "int (card (slotIDs ?r)) < 4" by simp
  from ids len show "card (slotIDs ?r) < length (hashes ?r)" by simp
  have "length [0, 1, 2, 3::nat] \<le> card (dom (hashMap ?r))"
    by (rule NewRing_card_dom [of ?n]) (simp_all add: hash_defs)
  with ids show "card (slotIDs ?r) < card (dom (hashMap ?r))" by simp
qed

section \<open>The hash\<close>

lemma unat_of_char: "unat (of_char c :: u32) = of_char c"
proof -
  have "(of_char c :: nat) < 256" by (rule nat_of_char_less_256)
  moreover have "(256 :: nat) \<le> 2 ^ LENGTH(32)" by simp
  ultimately have lt: "(of_char c :: nat) < 2 ^ LENGTH(32)" by (rule less_le_trans)
  have "unat (of_char c :: u32) = unat (of_nat (of_char c) :: u32)"
    by (simp only: of_nat_of_char)
  also have "\<dots> = (of_char c :: nat) mod 2 ^ LENGTH(32)" by (rule unat_of_nat)
  also have "\<dots> = of_char c" using lt by (rule mod_less)
  finally show ?thesis .
qed

lemma unat_fnv_step:
  "unat ((h XOR of_char c) * prime32) = ((unat h XOR of_char c) * 16777619) mod 2 ^ 32"
proof -
  have "unat ((h XOR of_char c) * prime32) = unat (h XOR of_char c) * unat prime32 mod 2 ^ LENGTH(32)"
    by (rule unat_word_ariths)
  moreover have "unat (h XOR (of_char c :: u32)) = unat h XOR of_char c"
    by (simp add: unsigned_xor_eq unat_of_char)
  moreover have "unat prime32 = 16777619" by (simp add: prime32_def)
  ultimately show ?thesis by simp
qed

lemma unat_Write32a:
  "unat (Write32a h s) =
     foldl (\<lambda>h b. ((h XOR b) * 16777619) mod 2 ^ 32) (unat h) (map of_char s)"
  unfolding Write32a_def
proof (induction s arbitrary: h)
  case Nil
  show ?case by simp
next
  case (Cons c s)
  show ?case by (simp add: Cons.IH unat_fnv_step)
qed

lemma hashFn_refines: "unat (hashFn s) = fnv1a32_spec (map of_char s)"
  by (simp add: hashFn_def Sum32_def New32a_def offset32_def fnv1a32_spec_def unat_Write32a)

lemma vKey_nat: "vKey n (int i) = n @ ''#'' @ digits i"
  by (simp add: vKey_def Sprintf_d_def)

lemma addNodeNoLock_lookup:
  "i < nat (vNodes r) \<Longrightarrow> hashMap (addNodeNoLock r n) (slotHash n i) = Some n"
  by (simp add: addNodeNoLock_def foldl_addSlot_lookup)

lemma GetReplicasForKey_hash_cong:
  "hashFn key = hashFn key' \<Longrightarrow> GetReplicasForKey r key rFactor = GetReplicasForKey r key' rFactor"
  by (simp add: GetReplicasForKey_def)

text \<open>
  Claim C8. \<open>hashFn\<close> is 32-bit FNV-1a over the bytes of the string: read as a number
  it is the FNV-1a of the specification. \<open>hashFn "foo"\<close> is \<open>0xA9F37ED7\<close>. Slot \<open>i\<close> of a
  node \<open>n\<close> is entered in the ring under the hash of the node's id, the character \<open>#\<close>
  and the decimal digits of \<open>i\<close>, and maps to \<open>n\<close>. The placement of a key depends on
  the key through \<open>hashFn\<close> only.
\<close>

theorem hashFn_fnv1a32_placement:
  "unat (hashFn s) = fnv1a32_spec (map of_char s) \<and>
   hashFn ''foo'' = 0xA9F37ED7 \<and>
   hashes (addNodeNoLock r n) =
     hashes r @ map (\<lambda>i. hashFn (ID n @ ''#'' @ digits i)) [0..<nat (vNodes r)] \<and>
   (\<forall>i < nat (vNodes r).
      hashMap (addNodeNoLock r n) (hashFn (ID n @ ''#'' @ digits i)) = Some n) \<and>
   (hashFn key = hashFn key' \<longrightarrow>
      GetReplicasForKey r key rFactor = GetReplicasForKey r key' rFactor)"
proof (intro conjI allI impI)
  show "unat (hashFn s) = fnv1a32_spec (map of_char s)" by (rule hashFn_refines)
  show "hashFn ''foo'' = 0xA9F37ED7"
    by (simp add: hashFn_def Sum32_def Write32a_def New32a_def offset32_def prime32_def)
  have sh: "slotHash n = (\<lambda>i. hashFn (ID n @ ''#'' @ digits i))"
    by (rule ext) (simp add: slotHash_def vKey_nat)
  show "hashes (addNodeNoLock r n) =
     hashes r @ map (\<lambda>i. hashFn (ID n @ ''#'' @ digits i)) [0..<nat (vNodes r)]"
    using addNodeNoLock_hashes [of r n] by (simp only: sh)
  show "hashMap (addNodeNoLock r n) (hashFn (ID n @ ''#'' @ digits i)) = Some n"
    if "i < nat (vNodes r)" for i
    using addNodeNoLock_lookup [OF that, of n] by (simp only: sh)
  show "GetReplicasForKey r key rFactor = GetReplicasForKey r key' rFactor"
    if "hashFn key = hashFn key'"
    using that by (rule GetReplicasForKey_hash_cong)
qed

theorem hashFn_fnv1a32_placement_witness:
  "hashFn ''n1#1'' = 0x5E460FF8 \<and>
   hashMap (addNodeNoLock \<lparr>vNodes = 2, hashes = [], hashMap = Map.empty\<rparr>
              \<lparr>ID = ''n1'', Host = ''h1''\<rparr>) 0x5E460FF8 = Some \<lparr>ID = ''n1'', Host = ''h1''\<rparr> \<and>
   ''costarring'' \<noteq> ''liquid'' \<and>
   hashFn ''costarring'' = hashFn ''liquid'' \<and>
   GetReplicasForKey (NewRing [\<lparr>ID = ''n1'', Host = ''h1''\<rparr>] 1) ''costarring'' 1 =
   GetReplicasForKey (NewRing [\<lparr>ID = ''n1'', Host = ''h1''\<rparr>] 1) ''liquid'' 1"
proof -
  let ?r = "\<lparr>vNodes = 2, hashes = [], hashMap = Map.empty\<rparr>"
  let ?n = "\<lparr>ID = ''n1'', Host = ''h1''\<rparr>"
  have h: "hashFn ''n1#1'' = 0x5E460FF8"
    by (simp add: hashFn_def Sum32_def Write32a_def New32a_def offset32_def prime32_def)
  have c: "hashFn ''costarring'' = hashFn ''liquid''"
    by (simp add: hashFn_def Sum32_def Write32a_def New32a_def offset32_def prime32_def)
  have d: "digits 1 = ''1''" by (simp add: digit_def)
  note t = hashFn_fnv1a32_placement [where s = "''foo''" and n = ?n
      and key = "''costarring''" and key' = "''liquid''" and rFactor = 1]
  from t [where r = ?r]
  have "hashMap (addNodeNoLock ?r ?n) (hashFn (ID ?n @ ''#'' @ digits 1)) = Some ?n"
    by simp
  moreover from t [where r = "NewRing [?n] 1"] c
  have "GetReplicasForKey (NewRing [?n] 1) ''costarring'' 1 =
        GetReplicasForKey (NewRing [?n] 1) ''liquid'' 1"
    by blast
  ultimately show ?thesis using h c d by simp
qed

section \<open>The local store\<close>

text \<open>
  Claim C9. \<open>Put\<close> and \<open>Delete\<close> of the local store touch the key they are given and
  no other: after \<open>Put k v\<close>, \<open>Get k\<close> is \<open>(v, true)\<close>; after \<open>Delete k\<close>, \<open>Get k\<close> is
  not present; \<open>Get\<close> of any other key is as before.
\<close>

theorem Store_frame:
  "k' \<noteq> k \<Longrightarrow>
     Store_Get (Store_Put s k v) k' = Store_Get s k' \<and>
     Store_Get (Store_Put s k v) k = (v, True) \<and>
     Store_Get (Store_Delete s k) k' = Store_Get s k' \<and>
     Store_Get (Store_Delete s k) k = ([], False)"
  by (simp add: Store_Get_def Store_Put_def Store_Delete_def)

theorem Store_frame_witness:
  "''b'' \<noteq> ''a'' \<and>
   Store_Get (Store_Put \<lparr>data = [''b'' \<mapsto> ''1'']\<rparr> ''a'' ''2'') ''b'' = (''1'', True) \<and>
   Store_Get (Store_Put \<lparr>data = [''b'' \<mapsto> ''1'']\<rparr> ''a'' ''2'') ''a'' = (''2'', True) \<and>
   Store_Get (Store_Delete \<lparr>data = [''b'' \<mapsto> ''1'', ''a'' \<mapsto> ''2'']\<rparr> ''a'') ''b'' = (''1'', True) \<and>
   Store_Get (Store_Delete \<lparr>data = [''b'' \<mapsto> ''1'', ''a'' \<mapsto> ''2'']\<rparr> ''a'') ''a'' = ([], False)"
proof -
  have ne: "''b'' \<noteq> ''a''" by simp
  have g1: "Store_Get \<lparr>data = [''b'' \<mapsto> ''1'']\<rparr> ''b'' = (''1'', True)"
    by (simp add: Store_Get_def)
  have g2: "Store_Get \<lparr>data = [''b'' \<mapsto> ''1'', ''a'' \<mapsto> ''2'']\<rparr> ''b'' = (''1'', True)"
    by (simp add: Store_Get_def)
  from Store_frame [OF ne, of "\<lparr>data = [''b'' \<mapsto> ''1'']\<rparr>" "''2''"]
    Store_frame [OF ne, of "\<lparr>data = [''b'' \<mapsto> ''1'', ''a'' \<mapsto> ''2'']\<rparr>" "''2''"]
  show ?thesis using ne g1 g2 by simp
qed


section \<open>Cluster configuration\<close>

lemma IndexByte_None: "IndexByte s sep = None \<longleftrightarrow> sep \<notin> set s"
  by (induction s) auto

lemma IndexByte_Some:
  "IndexByte s sep = Some m \<Longrightarrow>
     take m s = takeWhile (\<lambda>c. c \<noteq> sep) s \<and> drop (m + 1) s = tl (dropWhile (\<lambda>c. c \<noteq> sep) s)"
proof (induction s arbitrary: m)
  case Nil
  then show ?case by simp
next
  case (Cons x xs)
  show ?case
  proof (cases "x = sep")
    case True
    with Cons.prems show ?thesis by simp
  next
    case False
    with Cons.prems obtain m' where m': "IndexByte xs sep = Some m'" and m: "m = Suc m'"
      by auto
    from Cons.IH [OF m'] False m show ?thesis by simp
  qed
qed

lemma SplitN_2:
  assumes "p \<noteq> []"
  shows "SplitN p sep 2 =
     (case IndexByte p sep of None \<Rightarrow> [p] | Some m \<Rightarrow> [take m p, drop (m + 1) p])"
proof -
  from assms have "0 < length p" by simp
  then have "nat ((if 2 > int (length p) + 1 then int (length p) + 1 else 2) - 1) = Suc 0"
    by simp
  then show ?thesis
    by (simp add: SplitN_def genSplit_def Let_def split: option.split del: One_nat_def)
qed

lemma parse_step:
  "parse_loop (p # parts) nodes =
     parse_loop parts (case entry_node p of None \<Rightarrow> nodes | Some n \<Rightarrow> nodes @ [n])"
proof (cases "TrimSpace p = []")
  case True
  then show ?thesis by (simp add: entry_node_def)
next
  case ne: False
  show ?thesis
  proof (cases "IndexByte (TrimSpace p) (CHR ''='')")
    case None
    then have "CHR ''='' \<notin> set (TrimSpace p)" by (simp add: IndexByte_None)
    with ne None show ?thesis by (simp add: entry_node_def SplitN_2)
  next
    case (Some m)
    then have "CHR ''='' \<in> set (TrimSpace p)"
      using IndexByte_None [of "TrimSpace p" "CHR ''=''"] by auto
    with ne Some IndexByte_Some [OF Some] show ?thesis
      by (simp add: entry_node_def SplitN_2 index_def Let_def)
  qed
qed

lemma parse_loop_eq: "parse_loop parts nodes = Inr (nodes @ List.map_filter entry_node parts)"
proof (induction parts arbitrary: nodes)
  case Nil
  show ?case by (simp add: List.map_filter_simps)
next
  case (Cons p parts)
  show ?case
    by (simp only: parse_step Cons.IH) (simp add: List.map_filter_simps split: option.split)
qed

lemma Split_Nil: "Split [] sep = [[]]"
  by (simp add: Split_def genSplit_def Count_def)

lemma whiteSpace_no_eq: "w \<in> set whiteSpace \<Longrightarrow> CHR ''='' \<notin> set w"
  by (auto simp: whiteSpace_def)

lemma leadingSpace_no_eq:
  assumes "0 < leadingSpace s"
  shows "CHR ''='' \<notin> set (take (leadingSpace s) s)"
proof (cases "find (\<lambda>w. prefix w s) whiteSpace")
  case None
  with assms show ?thesis by (simp add: leadingSpace_def)
next
  case (Some w)
  then have w: "w \<in> set whiteSpace" and p: "prefix w s"
    by (auto simp: find_Some_iff)
  from p have "take (length w) s = w" by (auto simp: prefix_def)
  with Some whiteSpace_no_eq [OF w] show ?thesis by (simp add: leadingSpace_def)
qed

lemma trailingSpace_no_eq:
  assumes "0 < trailingSpace s"
  shows "CHR ''='' \<notin> set (drop (length s - trailingSpace s) s)"
proof (cases "find (\<lambda>w. suffix w s) whiteSpace")
  case None
  with assms show ?thesis by (simp add: trailingSpace_def)
next
  case (Some w)
  then have w: "w \<in> set whiteSpace" and p: "suffix w s"
    by (auto simp: find_Some_iff)
  from p have "drop (length s - length w) s = w" by (auto simp: suffix_def)
  with Some whiteSpace_no_eq [OF w] show ?thesis by (simp add: trailingSpace_def)
qed

lemma TrimLeftSpace_stop:
  "\<not> (0 < leadingSpace s \<and> leadingSpace s \<le> length s) \<Longrightarrow> TrimLeftSpace s = s"
  by (subst TrimLeftSpace.simps) (simp only: if_False)

lemma TrimLeftSpace_step:
  "0 < leadingSpace s \<and> leadingSpace s \<le> length s \<Longrightarrow>
     TrimLeftSpace s = TrimLeftSpace (drop (leadingSpace s) s)"
  by (subst TrimLeftSpace.simps) (simp only: if_True simp_thms)

lemma TrimRightSpace_stop:
  "\<not> (0 < trailingSpace s \<and> trailingSpace s \<le> length s) \<Longrightarrow> TrimRightSpace s = s"
  by (subst TrimRightSpace.simps) (simp only: if_False)

lemma TrimRightSpace_step:
  "0 < trailingSpace s \<and> trailingSpace s \<le> length s \<Longrightarrow>
     TrimRightSpace s = TrimRightSpace (take (length s - trailingSpace s) s)"
  by (subst TrimRightSpace.simps) (simp only: if_True simp_thms)

lemma TrimSpace_Nil: "TrimSpace [] = []"
proof -
  have "TrimLeftSpace [] = []" by (rule TrimLeftSpace_stop) auto
  moreover have "TrimRightSpace [] = []" by (rule TrimRightSpace_stop) auto
  ultimately show ?thesis by (simp add: TrimSpace_def)
qed

lemma TrimLeftSpace_eq: "CHR ''='' \<in> set (TrimLeftSpace s) \<longleftrightarrow> CHR ''='' \<in> set s"
proof (induction s rule: TrimLeftSpace.induct)
  case (1 s)
  show ?case
  proof (cases "0 < leadingSpace s \<and> leadingSpace s \<le> length s")
    case False
    then have "TrimLeftSpace s = s" by (rule TrimLeftSpace_stop)
    then show ?thesis by (simp only:)
  next
    case True
    let ?n = "leadingSpace s"
    have "set s = set (take ?n s) \<union> set (drop ?n s)"
      by (simp only: set_append [symmetric] append_take_drop_id)
    moreover from True leadingSpace_no_eq [of s] have "CHR ''='' \<notin> set (take ?n s)"
      by blast
    ultimately have "CHR ''='' \<in> set (drop ?n s) \<longleftrightarrow> CHR ''='' \<in> set s" by blast
    with "1.IH" [OF True] show ?thesis by (simp only: TrimLeftSpace_step [OF True])
  qed
qed

lemma TrimRightSpace_eq: "CHR ''='' \<in> set (TrimRightSpace s) \<longleftrightarrow> CHR ''='' \<in> set s"
proof (induction s rule: TrimRightSpace.induct)
  case (1 s)
  show ?case
  proof (cases "0 < trailingSpace s \<and> trailingSpace s \<le> length s")
    case False
    then have "TrimRightSpace s = s" by (rule TrimRightSpace_stop)
    then show ?thesis by (simp only:)
  next
    case True
    let ?n = "length s - trailingSpace s"
    have "set s = set (take ?n s) \<union> set (drop ?n s)"
      by (simp only: set_append [symmetric] append_take_drop_id)
    moreover from True trailingSpace_no_eq [of s] have "CHR ''='' \<notin> set (drop ?n s)"
      by blast
    ultimately have "CHR ''='' \<in> set (take ?n s) \<longleftrightarrow> CHR ''='' \<in> set s" by blast
    with "1.IH" [OF True] show ?thesis by (simp only: TrimRightSpace_step [OF True])
  qed
qed

lemma TrimSpace_eq: "CHR ''='' \<in> set (TrimSpace p) \<longleftrightarrow> CHR ''='' \<in> set p"
  by (simp add: TrimSpace_def TrimRightSpace_eq TrimLeftSpace_eq)


text \<open>
  Claim C10. \<open>parseClusterNodes\<close> never panics: for every string it returns a node list.
  The list holds, in input order, one node for each comma-separated entry that is not
  empty after trimming and contains an \<open>=\<close>: its id is the trimmed text before the first
  \<open>=\<close> and its host the text after it. Every other entry is skipped.
\<close>

theorem parseClusterNodes_entries:
  "parseClusterNodes env = Inr (List.map_filter entry_node (Split env (CHR '',''))) \<and>
   (entry_node p = None \<longleftrightarrow> TrimSpace p = [] \<or> CHR ''='' \<notin> set p) \<and>
   (CHR ''='' \<in> set p \<longrightarrow>
      entry_node p = Some \<lparr>ID = takeWhile (\<lambda>c. c \<noteq> CHR ''='') (TrimSpace p),
                           Host = tl (dropWhile (\<lambda>c. c \<noteq> CHR ''='') (TrimSpace p))\<rparr>)"
proof (intro conjI impI)
  show "parseClusterNodes env = Inr (List.map_filter entry_node (Split env (CHR '','')))"
    by (simp add: parseClusterNodes_def parse_loop_eq Split_Nil List.map_filter_simps
        entry_node_def TrimSpace_Nil)
  show "entry_node p = None \<longleftrightarrow> TrimSpace p = [] \<or> CHR ''='' \<notin> set p"
    using TrimSpace_eq [of p] by (auto simp: entry_node_def Let_def)
  show "entry_node p = Some \<lparr>ID = takeWhile (\<lambda>c. c \<noteq> CHR ''='') (TrimSpace p),
                           Host = tl (dropWhile (\<lambda>c. c \<noteq> CHR ''='') (TrimSpace p))\<rparr>"
    if "CHR ''='' \<in> set p"
    using that TrimSpace_eq [of p] by (auto simp: entry_node_def Let_def)
qed

theorem parseClusterNodes_entries_witness:
  "parseClusterNodes ''n1=h1, n2=h2,,bad'' =
     Inr [\<lparr>ID = ''n1'', Host = ''h1''\<rparr>, \<lparr>ID = ''n2'', Host = ''h2''\<rparr>] \<and>
   CHR ''='' \<in> set '' n2=h2'' \<and>
   entry_node '' n2=h2'' = Some \<lparr>ID = ''n2'', Host = ''h2''\<rparr> \<and>
   entry_node ''bad'' = None"
proof -
  have e: "List.map_filter entry_node (Split ''n1=h1, n2=h2,,bad'' (CHR '','')) =
      [\<lparr>ID = ''n1'', Host = ''h1''\<rparr>, \<lparr>ID = ''n2'', Host = ''h2''\<rparr>]"
    by code_simp
  have t: "TrimSpace '' n2=h2'' = ''n2=h2''" by code_simp
  have m: "CHR ''='' \<in> set '' n2=h2''" by simp
  have b: "CHR ''='' \<notin> set ''bad''" by simp
  from parseClusterNodes_entries [of "''n1=h1, n2=h2,,bad''" "'' n2=h2''"]
    parseClusterNodes_entries [of "''n1=h1, n2=h2,,bad''" "''bad''"] e t m b
  show ?thesis by simp
qed

section \<open>The router\<close>

lemmas example_defs = emptyRouter_def awayRouter_def pairRouter_def
  NewRouter_def NewStore_def peer2_def peer3_def unreachable_def reachable_def flaky_def
  background_def

lemma replicas_empty_ring: "GetReplicasForKey (NewRing [] v) key rf = Some []"
  by (simp add: GetReplicasForKey_def NewRing_def sortHashes_def)

lemma replicas_peer_ring: "GetReplicasForKey (NewRing [peer2] 1) key 1 = Some [peer2]"
  by (simp add: GetReplicasForKey_def NewRing_def addNodeNoLock_def addSlot_def sortHashes_def
      Search_def walk.simps lookupNode_def peer2_def Let_def)


lemma replicas_pair_ring: "GetReplicasForKey (NewRing [peer2, peer3] 1) ''foo'' 2 = Some [peer3, peer2]"
  by (simp add: GetReplicasForKey_def NewRing_def addNodeNoLock_def addSlot_def sortHashes_def
      Search_def walk.simps lookupNode_def peer2_def peer3_def Let_def
      hashFn_def Sum32_def Write32a_def New32a_def offset32_def prime32_def vKey_def
      Sprintf_d_def digit_def)

lemma Get_loop_answers:
  "fst (Get_loop r cl key nodes c) =
     (case first_value (answers r cl key nodes c) of
        Some v \<Rightarrow> (v, True, None) | None \<Rightarrow> ([], False, None))"
proof (induction nodes arbitrary: c)
  case Nil
  show ?case by simp
next
  case (Cons node rest)
  show ?case
  proof (cases "isLocal r node")
    case True
    then show ?thesis
      by (cases "data (localStore r) key") (simp_all add: Store_Get_def local_answer_def Cons.IH)
  next
    case remote: False
    show ?thesis
    proof (cases "url_Parse cl (getURL node)")
      case False
      with remote show ?thesis by (simp add: Cons.IH)
    next
      case True
      show ?thesis
      proof (cases "client_Get cl c (getURL node) key")
        case None
        with remote True show ?thesis by (simp add: remote_answer_def Cons.IH)
      next
        case (Some resp)
        with remote True show ?thesis by (simp add: remote_answer_def Cons.IH)
      qed
    qed
  qed
qed

text \<open>
  Claim C4. For a key with a non-empty replica list, \<open>Router.Get\<close> tries the replicas in
  ring order and returns the value of the first replica that answers with one. A replica
  that reports not-found and a replica that gives no answer (transport error, failure
  status) are both passed over, and when no replica gives a value the result is not
  found: \<open>found = false\<close> and no error.
\<close>

theorem Router_Get_first_answer:
  assumes "GetReplicasForKey (ring r) key (replicationFactor r) = Some replicas"
    and "replicas \<noteq> []"
  shows "map_option fst (Router_Get r cl c key) =
     Some (case first_value (answers r cl key replicas c) of
             Some v \<Rightarrow> (v, True, None) | None \<Rightarrow> ([], False, None))"
  using assms by (simp add: Router_Get_def Get_loop_answers)

text \<open>With the first replica unreachable the second one answers; with both unreachable the key is not found.\<close>

theorem Router_Get_first_answer_witness:
  "GetReplicasForKey (ring pairRouter) ''foo'' (replicationFactor pairRouter) = Some [peer3, peer2] \<and>
   [peer3, peer2] \<noteq> [] \<and>
   answers pairRouter flaky ''foo'' [peer3, peer2] 0 = [Failed, Value ''bar''] \<and>
   map_option fst (Router_Get pairRouter flaky 0 ''foo'') = Some (''bar'', True, None) \<and>
   answers pairRouter unreachable ''foo'' [peer3, peer2] 0 = [Failed, Failed] \<and>
   map_option fst (Router_Get pairRouter unreachable 0 ''foo'') = Some ([], False, None)"
proof -
  have g: "GetReplicasForKey (ring pairRouter) ''foo'' (replicationFactor pairRouter) =
      Some [peer3, peer2]"
    by (simp add: pairRouter_def NewRouter_def replicas_pair_ring)
  have ne: "[peer3, peer2] \<noteq> []" by simp
  have a1: "answers pairRouter flaky ''foo'' [peer3, peer2] 0 = [Failed, Value ''bar'']"
    by (simp add: example_defs isLocal_def remote_answer_def)
  have a2: "answers pairRouter unreachable ''foo'' [peer3, peer2] 0 = [Failed, Failed]"
    by (simp add: example_defs isLocal_def remote_answer_def)
  from Router_Get_first_answer [OF g ne, of flaky 0]
    Router_Get_first_answer [OF g ne, of unreachable 0] g a1 a2
  show ?thesis by simp
qed

lemma first_value_Failed: "\<forall>a \<in> set as. a = Failed \<Longrightarrow> first_value as = None"
  by (induction as) auto

lemma first_value_no_Value:
  "\<forall>a \<in> set as. a = Absent \<or> a = Failed \<Longrightarrow> first_value as = None"
  by (induction as) auto

text \<open>
  Claim C7, as the code has it. When every replica of a non-empty replica list fails to
  answer, the client GET reports 404 not found, as it does when the replicas report the
  key absent, or when some report it absent and the others fail. The GET reports 502
  exactly when the key has no replica at all.
\<close>

theorem Get_transport_failure_is_not_found:
  assumes "GetReplicasForKey (ring r) key (replicationFactor r) = Some replicas"
  shows "(replicas \<noteq> [] \<and> (\<forall>a \<in> set (answers r cl key replicas c). a = Failed) \<longrightarrow>
            map_option fst (HandleGetDistributed r cl c key) = Some (404, Text ''not found'')) \<and>
         (map_option (\<lambda>x. fst (fst x)) (HandleGetDistributed r cl c key) = Some 502 \<longleftrightarrow>
            replicas = []) \<and>
         (replicas \<noteq> [] \<and>
          (\<forall>a \<in> set (answers r cl key replicas c). a = Absent \<or> a = Failed) \<longrightarrow>
            map_option fst (HandleGetDistributed r cl c key) = Some (404, Text ''not found''))"
proof (intro conjI impI)
  assume a: "replicas \<noteq> [] \<and> (\<forall>a \<in> set (answers r cl key replicas c). a = Failed)"
  then have fv: "first_value (answers r cl key replicas c) = None"
    by (simp add: first_value_Failed)
  obtain res c' where g: "Get_loop r cl key replicas c = (res, c')" by (cases "Get_loop r cl key replicas c")
  with Get_loop_answers [of r cl key replicas c] fv have "res = ([], False, None)" by simp
  with a g assms show "map_option fst (HandleGetDistributed r cl c key) = Some (404, Text ''not found'')"
    by (simp add: HandleGetDistributed_def Router_Get_def)
next
  show "map_option (\<lambda>x. fst (fst x)) (HandleGetDistributed r cl c key) = Some 502 \<longleftrightarrow> replicas = []"
  proof (cases "replicas = []")
    case True
    with assms show ?thesis by (simp add: HandleGetDistributed_def Router_Get_def)
  next
    case False
    obtain res c' where g: "Get_loop r cl key replicas c = (res, c')" by (cases "Get_loop r cl key replicas c")
    with Get_loop_answers [of r cl key replicas c]
    have "res = (case first_value (answers r cl key replicas c) of
        Some v \<Rightarrow> (v, True, None) | None \<Rightarrow> ([], False, None))" by simp
    with False g assms show ?thesis
      by (simp add: HandleGetDistributed_def Router_Get_def split: option.split)
  qed
next
  assume a: "replicas \<noteq> [] \<and>
      (\<forall>a \<in> set (answers r cl key replicas c). a = Absent \<or> a = Failed)"
  then have fv: "first_value (answers r cl key replicas c) = None"
    by (simp add: first_value_no_Value)
  obtain res c' where g: "Get_loop r cl key replicas c = (res, c')"
    by (cases "Get_loop r cl key replicas c")
  with Get_loop_answers [of r cl key replicas c] fv have "res = ([], False, None)" by simp
  with a g assms
  show "map_option fst (HandleGetDistributed r cl c key) = Some (404, Text ''not found'')"
    by (simp add: HandleGetDistributed_def Router_Get_def)
qed

theorem Get_transport_failure_is_not_found_witness:
  "GetReplicasForKey (ring pairRouter) ''foo'' (replicationFactor pairRouter) = Some [peer3, peer2] \<and>
   [peer3, peer2] \<noteq> [] \<and>
   answers pairRouter unreachable ''foo'' [peer3, peer2] 0 = [Failed, Failed] \<and>
   map_option fst (HandleGetDistributed pairRouter unreachable 0 ''foo'') =
     Some (404, Text ''not found'') \<and>
   GetReplicasForKey (ring emptyRouter) ''foo'' (replicationFactor emptyRouter) = Some [] \<and>
   map_option (\<lambda>x. fst (fst x)) (HandleGetDistributed emptyRouter unreachable 0 ''foo'') = Some 502 \<and>
   answers pairRouter reachable ''foo'' [peer3, peer2] 0 = [Absent, Absent] \<and>
   map_option fst (HandleGetDistributed pairRouter reachable 0 ''foo'') =
     Some (404, Text ''not found'')"
proof -
  have g: "GetReplicasForKey (ring pairRouter) ''foo'' (replicationFactor pairRouter) =
      Some [peer3, peer2]"
    by (simp add: pairRouter_def NewRouter_def replicas_pair_ring)
  have a: "answers pairRouter unreachable ''foo'' [peer3, peer2] 0 = [Failed, Failed]"
    by (simp add: example_defs isLocal_def remote_answer_def)
  have e: "GetReplicasForKey (ring emptyRouter) ''foo'' (replicationFactor emptyRouter) = Some []"
    by (simp add: emptyRouter_def NewRouter_def replicas_empty_ring)
  have b: "answers pairRouter reachable ''foo'' [peer3, peer2] 0 = [Absent, Absent]"
    by (simp add: example_defs isLocal_def remote_answer_def)
  from Get_transport_failure_is_not_found [OF g, of unreachable 0]
    Get_transport_failure_is_not_found [OF e, of unreachable 0]
    Get_transport_failure_is_not_found [OF g, of reachable 0] g a b e
  show ?thesis by simp
qed

text \<open>A GET whose only replica is unreachable is answered 404, not 502.\<close>

theorem Get_transport_failure_is_502_counterexample:
  "GetReplicasForKey (ring awayRouter) ''k'' (replicationFactor awayRouter) = Some [peer2] \<and>
   answers awayRouter unreachable ''k'' [peer2] 0 = [Failed] \<and>
   HandleGetDistributed awayRouter unreachable 0 ''k'' = Some ((404, Text ''not found''), 1) \<and>
   (404 :: int) \<noteq> 502"
proof -
  have g: "GetReplicasForKey (ring awayRouter) ''k'' (replicationFactor awayRouter) = Some [peer2]"
    by (simp add: awayRouter_def NewRouter_def replicas_peer_ring)
  have l: "\<not> isLocal awayRouter peer2"
    by (simp add: awayRouter_def NewRouter_def isLocal_def peer2_def)
  have "answers awayRouter unreachable ''k'' [peer2] 0 = [Failed]"
    using l by (simp add: unreachable_def remote_answer_def)
  moreover have "HandleGetDistributed awayRouter unreachable 0 ''k'' =
      Some ((404, Text ''not found''), 1)"
    using g l by (simp add: HandleGetDistributed_def Router_Get_def unreachable_def)
  ultimately show ?thesis using g by simp
qed

lemma Store_Put_twice: "Store_Put (Store_Put s key val) key val = Store_Put s key val"
  by (simp add: Store_Put_def)

lemma Put_loop_eq:
  "Put_loop r cl key val nodes s c errs =
     (if list_ex (isLocal r) nodes then Store_Put s key val else s,
      c + length (filter (\<lambda>n. \<not> isLocal r n) nodes),
      errs @ put_errors cl key val (filter (\<lambda>n. \<not> isLocal r n) nodes) c)"
proof (induction nodes arbitrary: s c errs)
  case Nil
  show ?case by simp
next
  case (Cons node rest)
  show ?case
  proof (cases "isLocal r node")
    case True
    then show ?thesis by (simp add: Cons.IH Store_Put_twice)
  next
    case False
    then show ?thesis
      by (cases "client_Post cl c (putURL node) key val") (simp_all add: Cons.IH)
  qed
qed

text \<open>
  Claim C5, as the code has it. For a key with a non-empty replica list, \<open>Router.Put\<close>
  sends one request to every remote replica, whatever the earlier ones gave, and writes
  the local store when a replica is this node. Each transport error and each status from
  300 up is recorded, and the call returns an error exactly when one was recorded. For a
  key with no replica the call returns the error \<open>no replicas for key\<close>, sends no request
  and leaves the store as it is.
\<close>

theorem Router_Put_all_replicas:
  assumes "GetReplicasForKey (ring r) key (replicationFactor r) = Some replicas"
  shows "(replicas \<noteq> [] \<longrightarrow>
     Router_Put r cl c key val =
     Some (if put_errors cl key val (filter (\<lambda>n. \<not> isLocal r n) replicas) c = [] then None
           else Some (ReplicationErrors
                        (put_errors cl key val (filter (\<lambda>n. \<not> isLocal r n) replicas) c)),
           r\<lparr>localStore := (if list_ex (isLocal r) replicas
                              then Store_Put (localStore r) key val else localStore r)\<rparr>,
           c + length (filter (\<lambda>n. \<not> isLocal r n) replicas))) \<and>
    (replicas = [] \<longrightarrow> Router_Put r cl c key val = Some (Some NoReplicas, r, c))"
  using assms by (simp add: Router_Put_def Put_loop_eq)

theorem Router_Put_all_replicas_witness:
  "GetReplicasForKey (ring pairRouter) ''foo'' (replicationFactor pairRouter) = Some [peer3, peer2] \<and>
   [peer3, peer2] \<noteq> [] \<and>
   Router_Put pairRouter flaky 0 ''foo'' ''bar'' =
     Some (Some (ReplicationErrors [PutFailed ''h3'']), pairRouter, 2) \<and>
   Router_Put pairRouter reachable 0 ''foo'' ''bar'' = Some (None, pairRouter, 2) \<and>
   GetReplicasForKey (ring emptyRouter) ''foo'' (replicationFactor emptyRouter) = Some [] \<and>
   Router_Put emptyRouter unreachable 0 ''foo'' ''bar'' = Some (Some NoReplicas, emptyRouter, 0)"
proof -
  have g: "GetReplicasForKey (ring pairRouter) ''foo'' (replicationFactor pairRouter) =
      Some [peer3, peer2]"
    by (simp add: pairRouter_def NewRouter_def replicas_pair_ring)
  have ne: "[peer3, peer2] \<noteq> []" by simp
  have l: "\<not> isLocal pairRouter peer3" "\<not> isLocal pairRouter peer2"
    by (simp_all add: example_defs isLocal_def)
  have e1: "put_errors flaky ''foo'' ''bar'' [peer3, peer2] 0 = [PutFailed ''h3'']"
    by (simp add: example_defs)
  have e2: "put_errors reachable ''foo'' ''bar'' [peer3, peer2] 0 = []"
    by (simp add: example_defs)
  have e: "GetReplicasForKey (ring emptyRouter) ''foo'' (replicationFactor emptyRouter) = Some []"
    by (simp add: emptyRouter_def NewRouter_def replicas_empty_ring)
  from Router_Put_all_replicas [OF g, of flaky 0 "''bar''"]
    Router_Put_all_replicas [OF g, of reachable 0 "''bar''"]
    Router_Put_all_replicas [OF e, of unreachable 0 "''bar''"] g ne l e1 e2 e
  show ?thesis by simp
qed

text \<open>On the empty ring the write fails although no replica was tried and no error recorded.\<close>

theorem Router_Put_error_iff_recorded_counterexample:
  "GetReplicasForKey (ring emptyRouter) ''k'' (replicationFactor emptyRouter) = Some [] \<and>
   Router_Put emptyRouter reachable 0 ''k'' ''v'' = Some (Some NoReplicas, emptyRouter, 0)"
  by (simp add: emptyRouter_def NewRouter_def replicas_empty_ring Router_Put_def)


section \<open>The rebalancer\<close>




































end
